theory Spec2Isabelle
  imports Main
begin

section \<open>Paths and strings\<close>

text \<open>
  A \<open>pathlib.Path\<close> is modelled by the list of its components below the filesystem
  root (POSIX flavour): \<open>Path("/tmp/proj/a.py")\<close> is \<open>[''tmp'', ''proj'', ''a.py'']\<close>.
  Two paths are equal when their component lists are, which is how \<open>file_path in
  exclude_files\<close> compares them. Strings are byte strings.
\<close>

type_synonym path = "string list"

datatype error = ValueError

abbreviation NL :: string where
  "NL \<equiv> [CHR 0x0A]"

definition endswith :: "string \<Rightarrow> string \<Rightarrow> bool" where
  \<comment> \<open>\<open>str.endswith\<close>: a case-sensitive comparison of the last characters.\<close>
  "endswith s suf = (length suf \<le> length s \<and> drop (length s - length suf) s = suf)"

definition path_name :: "path \<Rightarrow> string" where
  \<comment> \<open>\<open>Path.name\<close>: the final component, the empty string for the root \<open>/\<close>.\<close>
  "path_name p = (if p = [] then [] else last p)"

fun rel_str :: "path \<Rightarrow> string" where
  \<comment> \<open>\<open>str\<close> of a relative path: the components joined by \<open>/\<close>, \<open>.\<close> when there are none.\<close>
  "rel_str [] = ''.''"
| "rel_str [c] = c"
| "rel_str (c # cs) = c @ ''/'' @ rel_str cs"

definition abs_str :: "path \<Rightarrow> string" where
  \<comment> \<open>\<open>str\<close> of an absolute path.\<close>
  "abs_str p = (if p = [] then ''/'' else concat (map (\<lambda>c. ''/'' @ c) p))"

definition relative_to :: "path \<Rightarrow> path \<Rightarrow> error + path" where
  \<comment> \<open>\<open>Path.relative_to\<close> raises \<open>ValueError\<close> when \<open>other\<close> is not a prefix.\<close>
  "relative_to p other =
     (if take (length other) p = other then Inr (drop (length other) p) else Inl ValueError)"

section \<open>The filesystem\<close>

text \<open>
  A directory listing is the list of its entries in the order \<open>os.scandir\<close> enumerates
  them. \<open>os.walk\<close> sorts every entry into \<open>dirs\<close> or \<open>files\<close>; a symbolic link to a
  directory, which \<open>os.walk\<close> lists but does not enter, is a \<open>Dir\<close> with no entries.
  What \<open>open(file_path, "r", encoding="utf-8")\<close> followed by \<open>f.read()\<close> does is the
  function \<open>contents\<close>: \<open>Inr text\<close> when both succeed, \<open>Inl msg\<close> when either raises an
  \<open>Exception\<close> \<open>e\<close> with \<open>str(e) = msg\<close>.
  \<open>resolve\<close> is what \<open>Path.resolve()\<close> gives in this filesystem: the path with its
  symbolic links followed, the path itself where there are none. \<open>open\<close> follows the
  links by itself, so \<open>contents\<close> is given for the path as it is written.
  The two traces record what the call does besides returning: the files it opens and
  the warnings it logs.
\<close>

datatype node = File string | Dir string "node list"

record world =
  listing :: "node list"
  contents :: "path \<Rightarrow> string + string"
  resolve :: "path \<Rightarrow> path"
  opened :: "path list"
  warnings :: "string list"

fun node_name :: "node \<Rightarrow> string" where
  "node_name (File n) = n"
| "node_name (Dir n sub) = n"

fun dir_names :: "node list \<Rightarrow> string list" where
  "dir_names [] = []"
| "dir_names (Dir d sub # es) = d # dir_names es"
| "dir_names (File f # es) = dir_names es"

fun file_names :: "node list \<Rightarrow> string list" where
  "file_names [] = []"
| "file_names (File f # es) = f # file_names es"
| "file_names (Dir d sub # es) = file_names es"

text \<open>
  \<open>os.walk(top)\<close>, top-down (\<open>topdir\<close> is its \<open>top\<close>): it yields
  \<open>(top, dirs, files)\<close>, lets the consumer edit \<open>dirs\<close> in place, and then walks every
  directory still in \<open>dirs\<close>, in order. The consumer here only filters \<open>dirs\<close>
  (line 37), so the edit is the predicate \<open>keep\<close>. Errors of \<open>os.scandir\<close> are ignored
  by \<open>os.walk\<close> (\<open>onerror=None\<close>): a directory that cannot be listed has no entries.
\<close>

fun os_walk :: "(string \<Rightarrow> bool) \<Rightarrow> path \<Rightarrow> node list \<Rightarrow> (path \<times> string list \<times> string list) list" where
  "os_walk keep topdir entries =
     (topdir, filter keep (dir_names entries), file_names entries) #
     concat (map (\<lambda>e. case e of
                         Dir d sub \<Rightarrow> if keep d then os_walk keep (topdir @ [d]) sub else []
                       | File f \<Rightarrow> [])
                 entries)"

definition walk_subdirs ::
  "(string \<Rightarrow> bool) \<Rightarrow> path \<Rightarrow> node list \<Rightarrow> (path \<times> string list \<times> string list) list" where
  \<comment> \<open>What \<open>os_walk\<close> yields after its first triple: the walks of the directories kept.\<close>
  "walk_subdirs keep topdir entries =
     concat (map (\<lambda>e. case e of
                         Dir d sub \<Rightarrow> if keep d then os_walk keep (topdir @ [d]) sub else []
                       | File f \<Rightarrow> [])
                 entries)"

section \<open>collect_files\<close>

fun for_each :: "('a \<Rightarrow> 's \<Rightarrow> error + 's) \<Rightarrow> 'a list \<Rightarrow> 's \<Rightarrow> error + 's" where
  \<comment> \<open>A \<open>for\<close> loop whose body may raise: the first exception leaves the loop.\<close>
  "for_each body [] s = Inr s"
| "for_each body (x # xs) s =
     (case body x s of Inl e \<Rightarrow> Inl e | Inr s' \<Rightarrow> for_each body xs s')"

definition read_file :: "path \<Rightarrow> world \<Rightarrow> string \<times> world" where
  \<comment> \<open>Lines 51 to 56: the \<open>try\<close> block and its handler.\<close>
  "read_file file_path w =
     (let w1 = w\<lparr>opened := opened w @ [file_path]\<rparr> in
      case contents w file_path of
        Inr text \<Rightarrow> (text, w1)
      | Inl e \<Rightarrow>
          (''<<Error reading file: '' @ e @ ''>>'',
           w1\<lparr>warnings := warnings w1 @
                 [''Failed to read file '' @ abs_str file_path @ '': '' @ e]\<rparr>))"

definition visit_file ::
  "path \<Rightarrow> path set \<Rightarrow> bool \<Rightarrow> path \<Rightarrow> string \<Rightarrow> string list \<times> world \<Rightarrow> error + string list \<times> world" where
  \<comment> \<open>Lines 40 to 58: the body of the inner loop; \<open>Inr st\<close> unchanged is \<open>continue\<close>.\<close>
  "visit_file folder_path exclude_files all_files root file st =
     (if \<not> all_files \<and> \<not> endswith file ''.py'' then Inr st
      else
        let file_path = root @ [file] in
        if file_path \<in> exclude_files then Inr st
        else
          case relative_to file_path folder_path of
            Inl e \<Rightarrow> Inl e
          | Inr rel_path \<Rightarrow>
              let (content, w') = read_file file_path (snd st) in
              Inr (fst st @
                     [''['' @ path_name folder_path @ ''/'' @ rel_str rel_path @ '']'' @ NL @
                      content @ NL @ NL],
                   w'))"

definition collect_files ::
  "path \<Rightarrow> path set \<Rightarrow> string set \<Rightarrow> bool \<Rightarrow> world \<Rightarrow> error + string \<times> world" where
  "collect_files folder_path exclude_files exclude_dirs all_files w =
     (case for_each
             (\<lambda>(root, dirs, files).
                for_each (visit_file folder_path exclude_files all_files root) files)
             (os_walk (\<lambda>d. d \<notin> exclude_dirs) folder_path (listing w))
             ([], w) of
        Inl e \<Rightarrow> Inl e
      | Inr (output_parts, w') \<Rightarrow> Inr (concat output_parts, w'))"

section \<open>The files a call selects\<close>

text \<open>
  The two tests of the loop body (lines 41 and 46) as a predicate, and the files that
  pass them, in the order the two loops meet them. The lemmas below show that
  \<open>collect_files\<close> opens exactly these files, in this order, and returns one record for
  each of them.
\<close>

definition qualifies :: "path set \<Rightarrow> bool \<Rightarrow> path \<Rightarrow> string \<Rightarrow> bool" where
  "qualifies exclude_files all_files root file =
     ((all_files \<or> endswith file ''.py'') \<and> root @ [file] \<notin> exclude_files)"

definition selected :: "path \<Rightarrow> path set \<Rightarrow> string set \<Rightarrow> bool \<Rightarrow> node list \<Rightarrow> path list" where
  "selected folder_path exclude_files exclude_dirs all_files entries =
     concat (map (\<lambda>(root, dirs, files).
                    map (\<lambda>file. root @ [file])
                      (filter (qualifies exclude_files all_files root) files))
                 (os_walk (\<lambda>d. d \<notin> exclude_dirs) folder_path entries))"

definition body :: "string + string \<Rightarrow> string" where
  \<comment> \<open>What stands between the header and the blank line: the text read, or the placeholder.\<close>
  "body r = (case r of Inr text \<Rightarrow> text | Inl e \<Rightarrow> ''<<Error reading file: '' @ e @ ''>>'')"

definition header :: "path \<Rightarrow> path \<Rightarrow> string" where
  \<comment> \<open>The first line of the record of the file \<open>p\<close>, the line feed included.\<close>
  "header folder_path p =
     ''['' @ path_name folder_path @ ''/'' @ rel_str (drop (length folder_path) p) @ '']'' @ NL"

definition record_text :: "path \<Rightarrow> (path \<Rightarrow> string + string) \<Rightarrow> path \<Rightarrow> string" where
  "record_text folder_path rd p = header folder_path p @ body (rd p) @ NL @ NL"

definition warning_of :: "(path \<Rightarrow> string + string) \<Rightarrow> path \<Rightarrow> string list" where
  "warning_of rd p =
     (case rd p of
        Inr text \<Rightarrow> []
      | Inl e \<Rightarrow> [''Failed to read file '' @ abs_str p @ '': '' @ e])"

definition after_reading :: "world \<Rightarrow> path list \<Rightarrow> world" where
  \<comment> \<open>The world once the files \<open>ps\<close> have been opened: the filesystem is as it was.\<close>
  "after_reading w ps =
     w\<lparr>opened := opened w @ ps,
       warnings := warnings w @ concat (map (warning_of (contents w)) ps)\<rparr>"

definition emit :: "path \<Rightarrow> path list \<Rightarrow> string list \<times> world \<Rightarrow> string list \<times> world" where
  \<comment> \<open>The loop state after the files \<open>ps\<close> have been read and appended.\<close>
  "emit folder_path ps st =
     (fst st @ map (record_text folder_path (contents (snd st))) ps, after_reading (snd st) ps)"

section \<open>Where the files of a tree are\<close>

text \<open>
  \<open>subdirs_at ds es\<close> are the listings reached from the listing \<open>es\<close> by entering the
  directories named \<open>ds\<close> in turn (one listing at most when names are unique in every
  directory, as \<open>wf_listing\<close> says), and \<open>has_file es rel\<close> says that the relative path
  \<open>rel\<close> leads to a regular file. \<open>no_files exclude_dirs es\<close> says that no regular file
  is left in the tree once the directories named in \<open>exclude_dirs\<close> are cut off.
\<close>

primrec subdirs_at :: "path \<Rightarrow> node list \<Rightarrow> node list list" where
  "subdirs_at [] es = [es]"
| "subdirs_at (d # ds) es =
     concat (map (\<lambda>e. case e of
                         Dir n sub \<Rightarrow> if n = d then subdirs_at ds sub else []
                       | File f \<Rightarrow> [])
                 es)"

definition has_file :: "node list \<Rightarrow> path \<Rightarrow> bool" where
  "has_file es rel =
     (rel \<noteq> [] \<and>
      list_ex (\<lambda>sub. last rel \<in> set (file_names sub)) (subdirs_at (butlast rel) es))"

fun no_files_node :: "string set \<Rightarrow> node \<Rightarrow> bool" where
  "no_files_node exclude_dirs (File f) = False"
| "no_files_node exclude_dirs (Dir d sub) =
     (d \<in> exclude_dirs \<or> list_all (no_files_node exclude_dirs) sub)"

definition no_files :: "string set \<Rightarrow> node list \<Rightarrow> bool" where
  "no_files exclude_dirs es = list_all (no_files_node exclude_dirs) es"

fun wf_node :: "node \<Rightarrow> bool" where
  "wf_node (File f) = True"
| "wf_node (Dir d sub) = (distinct (map node_name sub) \<and> list_all wf_node sub)"

definition wf_listing :: "node list \<Rightarrow> bool" where
  "wf_listing es = (distinct (map node_name es) \<and> list_all wf_node es)"

section \<open>The filter as the specification words it\<close>

text \<open>
  The specification gives \<open>collect\<close> two more arguments, \<open>includeExtensions\<close> and
  \<open>excludeExtensions\<close>, and decides on the extension of the file name: the substring
  from the last \<open>.\<close> to the end, lower-cased, empty when the name has no \<open>.\<close> (step 3a).
  A file is emitted when \<open>allFiles\<close> holds or the extension is a case-insensitive
  member of \<open>includeExtensions\<close> (3b), the extension is not a case-insensitive member of
  \<open>excludeExtensions\<close> (3c), and the path is not in \<open>fileExclusions\<close> (3d). These
  definitions follow those words, not the source; the source's test is \<open>qualifies\<close>.
  Lower-casing is that of ASCII letters.
\<close>

definition lower_char :: "char \<Rightarrow> char" where
  "lower_char c =
     (case map_of (zip ''ABCDEFGHIJKLMNOPQRSTUVWXYZ'' ''abcdefghijklmnopqrstuvwxyz'') c of
        Some l \<Rightarrow> l
      | None \<Rightarrow> c)"

definition lower :: "string \<Rightarrow> string" where
  "lower s = map lower_char s"

definition extension :: "string \<Rightarrow> string" where
  "extension file =
     (if CHR ''.'' \<in> set file
      then lower (CHR ''.'' # rev (takeWhile (\<lambda>c. c \<noteq> CHR ''.'') (rev file)))
      else [])"

definition spec_emitted ::
  "bool \<Rightarrow> string set \<Rightarrow> string set \<Rightarrow> path set \<Rightarrow> path \<Rightarrow> string \<Rightarrow> bool" where
  "spec_emitted allFiles includeExtensions excludeExtensions fileExclusions file_path file =
     ((allFiles \<or> extension file \<in> lower ` includeExtensions) \<and>
      extension file \<notin> lower ` excludeExtensions \<and>
      file_path \<notin> fileExclusions)"

definition collect_visit ::
  "path \<Rightarrow> path set \<Rightarrow> bool \<Rightarrow> string set \<Rightarrow> string set \<Rightarrow> path \<Rightarrow> string \<Rightarrow>
   string list \<times> world \<Rightarrow> error + string list \<times> world" where
  \<comment> \<open>Modelled from the spec: steps 3 and 4 of the algorithm of section 4.1. The source's
      loop body has neither the parameters \<open>include_extensions\<close> and
      \<open>exclude_extensions\<close> nor the tests on them; only the repository's tests pass them.\<close>
  "collect_visit root fileExclusions allFiles includeExtensions excludeExtensions dir file st =
     (if \<not> allFiles \<and> extension file \<notin> lower ` includeExtensions then Inr st
      else if extension file \<in> lower ` excludeExtensions then Inr st
      else
        let file_path = dir @ [file] in
        if resolve (snd st) file_path \<in> fileExclusions then Inr st
        else
          case relative_to file_path root of
            Inl e \<Rightarrow> Inl e
          | Inr rel_path \<Rightarrow>
              let (content, w') = read_file file_path (snd st) in
              Inr (fst st @
                     [''['' @ path_name root @ ''/'' @ rel_str rel_path @ '']'' @ NL @
                      content @ NL @ NL],
                   w'))"

definition collect ::
  "path \<Rightarrow> path set \<Rightarrow> string set \<Rightarrow> bool \<Rightarrow> string set \<Rightarrow> string set \<Rightarrow> world \<Rightarrow>
   error + string \<times> world" where
  \<comment> \<open>Modelled from the spec: the operation \<open>collect\<close> of section 4.1 with its six
      arguments, steps 1, 2 and 5 being the walk, the pruning and the concatenation that
      the source has. The source's \<open>collect_files\<close> takes the first four arguments only.\<close>
  "collect root fileExclusions dirExclusions allFiles includeExtensions excludeExtensions w =
     (case for_each
             (\<lambda>(dir, dirs, files).
                for_each (collect_visit root fileExclusions allFiles includeExtensions
                            excludeExtensions dir) files)
             (os_walk (\<lambda>d. d \<notin> dirExclusions) root (listing w))
             ([], w) of
        Inl e \<Rightarrow> Inl e
      | Inr (output_parts, w') \<Rightarrow> Inr (concat output_parts, w'))"

definition spec_selected ::
  "path \<Rightarrow> path set \<Rightarrow> string set \<Rightarrow> bool \<Rightarrow> string set \<Rightarrow> string set \<Rightarrow> world \<Rightarrow> path list" where
  \<comment> \<open>The files that pass the specification's filter, in the order of the walk.\<close>
  "spec_selected root fileExclusions dirExclusions allFiles includeExtensions excludeExtensions w =
     concat (map (\<lambda>(dir, dirs, files).
                    map (\<lambda>file. dir @ [file])
                      (filter (\<lambda>file. spec_emitted allFiles includeExtensions excludeExtensions
                                        fileExclusions (resolve w (dir @ [file])) file)
                         files))
                 (os_walk (\<lambda>d. d \<notin> dirExclusions) root (listing w)))"

section \<open>Example trees\<close>

definition single_file_world :: "string \<Rightarrow> string \<Rightarrow> world" where
  \<comment> \<open>A root directory that holds one readable file.\<close>
  "single_file_world file text =
     \<lparr>listing = [File file], contents = (\<lambda>p. Inr text), resolve = (\<lambda>p. p),
      opened = [], warnings = []\<rparr>"

definition pruned_world :: world where
  \<comment> \<open>A root directory whose only files are below a directory named \<open>venv\<close>.\<close>
  "pruned_world =
     \<lparr>listing = [Dir ''venv'' [File ''x.py'', Dir ''lib'' [File ''y.py'']], Dir ''docs'' []],
      contents = (\<lambda>p. Inr ''pass''),
      resolve = (\<lambda>p. p),
      opened = [],
      warnings = []\<rparr>"

definition example_listing :: "node list" where
  "example_listing =
     [File ''test.py'', File ''Test.PY'', File ''Test.java'', File ''readme.txt'',
      Dir ''subdir'' [File ''sub.py'', File ''build''],
      Dir ''build'' [File ''output.o'', Dir ''gen'' [File ''gen.py'']]]"

definition example_world :: world where
  "example_world =
     \<lparr>listing = example_listing,
      contents = (\<lambda>p. if p = [''tmp'', ''proj'', ''subdir'', ''sub.py'']
                       then Inl ''[Errno 13] Permission denied'' else Inr (last p)),
      resolve = (\<lambda>p. p),
      opened = [],
      warnings = []\<rparr>"

definition link_world :: world where
  \<comment> \<open>A root directory in which \<open>b.py\<close> is a symbolic link to \<open>a.py\<close>.\<close>
  "link_world =
     \<lparr>listing = [File ''a.py'', File ''b.py''],
      contents = (\<lambda>p. Inr ''x''),
      resolve = (\<lambda>p. if p = [''tmp'', ''proj'', ''b.py''] then [''tmp'', ''proj'', ''a.py''] else p),
      opened = [],
      warnings = []\<rparr>"

section \<open>The loops compute the selection\<close>

declare os_walk.simps [simp del]

lemma os_walk_eval:
  "os_walk keep topdir entries =
     (topdir, filter keep (dir_names entries), file_names entries) #
     walk_subdirs keep topdir entries"
  by (simp add: walk_subdirs_def os_walk.simps [of keep topdir entries])

lemma walk_subdirs_eval:
  "walk_subdirs keep topdir [] = []"
  "walk_subdirs keep topdir (File f # es) = walk_subdirs keep topdir es"
  "walk_subdirs keep topdir (Dir d sub # es) =
     (if keep d then os_walk keep (topdir @ [d]) sub else []) @ walk_subdirs keep topdir es"
  by (simp_all add: walk_subdirs_def)

lemmas walk_eval = os_walk_eval walk_subdirs_eval

lemma os_walk_root_prefix:
  "(root, ds, fs) \<in> set (os_walk keep topdir es) \<Longrightarrow> take (length topdir) root = topdir"
proof (induction keep topdir es arbitrary: root ds fs rule: os_walk.induct)
  case (1 keep topdir entries)
  from "1.prems" consider "root = topdir"
    | d sub where "Dir d sub \<in> set entries" "keep d"
        "(root, ds, fs) \<in> set (os_walk keep (topdir @ [d]) sub)"
    by (subst (asm) os_walk.simps) (auto split: node.splits if_splits)
  then show ?case
  proof cases
    case 1
    then show ?thesis by simp
  next
    case 2
    then have "take (length (topdir @ [d])) root = topdir @ [d]"
      using "1.IH" by blast
    then have "take (length topdir) (take (length (topdir @ [d])) root) =
               take (length topdir) (topdir @ [d])"
      by simp
    then show ?thesis by (simp add: min_def)
  qed
qed

lemma emit_emit: "emit fp qs (emit fp ps st) = emit fp (ps @ qs) st"
  by (simp add: emit_def after_reading_def)

lemma emit_Nil: "emit fp [] st = st"
  by (simp add: emit_def after_reading_def)

lemma visit_file_emit:
  assumes "take (length fp) root = fp"
  shows "visit_file fp ef af root file st =
         Inr (emit fp (if qualifies ef af root file then [root @ [file]] else []) st)"
  using assms
  by (auto simp: visit_file_def qualifies_def emit_def after_reading_def relative_to_def
        read_file_def Let_def
        record_text_def header_def body_def warning_of_def split: sum.splits prod.splits)

lemma inner_loop_emit:
  assumes "take (length fp) root = fp"
  shows "for_each (visit_file fp ef af root) files st =
         Inr (emit fp (map (\<lambda>file. root @ [file]) (filter (qualifies ef af root) files)) st)"
proof (induction files arbitrary: st)
  case Nil
  show ?case by (simp add: emit_Nil)
next
  case (Cons f files)
  have "visit_file fp ef af root f st =
        Inr (emit fp (if qualifies ef af root f then [root @ [f]] else []) st)"
    by (rule visit_file_emit [OF assms])
  then show ?case
    by (simp add: Cons.IH emit_emit emit_Nil)
qed

lemma outer_loop_emit:
  assumes "\<And>root ds fs. (root, ds, fs) \<in> set triples \<Longrightarrow> take (length fp) root = fp"
  shows "for_each (\<lambda>(root, dirs, files). for_each (visit_file fp ef af root) files) triples st =
         Inr (emit fp (concat (map (\<lambda>(root, dirs, files).
                  map (\<lambda>file. root @ [file]) (filter (qualifies ef af root) files)) triples)) st)"
  using assms
proof (induction triples arbitrary: st)
  case Nil
  show ?case by (simp add: emit_Nil)
next
  case (Cons t triples)
  obtain root ds fs where t: "t = (root, ds, fs)" by (cases t)
  have r: "take (length fp) root = fp" using Cons.prems t by auto
  have rest: "\<And>root ds fs. (root, ds, fs) \<in> set triples \<Longrightarrow> take (length fp) root = fp"
    using Cons.prems by auto
  have "for_each (visit_file fp ef af root) fs st =
        Inr (emit fp (map (\<lambda>file. root @ [file]) (filter (qualifies ef af root) fs)) st)"
    by (rule inner_loop_emit [OF r])
  then show ?case
    by (simp add: t Cons.IH [OF rest] emit_emit)
qed

lemma collect_files_selected:
  "collect_files fp ef ed af w =
     Inr (concat (map (record_text fp (contents w)) (selected fp ef ed af (listing w))),
          after_reading w (selected fp ef ed af (listing w)))"
proof -
  have "for_each (\<lambda>(root, dirs, files). for_each (visit_file fp ef af root) files)
          (os_walk (\<lambda>d. d \<notin> ed) fp (listing w)) ([], w) =
        Inr (emit fp (selected fp ef ed af (listing w)) ([], w))"
    unfolding selected_def
    by (rule outer_loop_emit) (rule os_walk_root_prefix)
  then show ?thesis
    by (simp add: collect_files_def emit_def)
qed

lemma selected_not_excluded: "p \<in> set (selected fp ef ed af es) \<Longrightarrow> p \<notin> ef"
  by (auto simp: selected_def qualifies_def)

section \<open>The selection, file by file\<close>


lemma listing_induct [case_names listing]:
  assumes step: "\<And>es. (\<And>d sub. Dir d sub \<in> set es \<Longrightarrow> P sub) \<Longrightarrow> P es"
  shows "P es"
proof -
  have "(\<forall>d. keep d) \<longrightarrow> P es" for keep :: "string \<Rightarrow> bool" and topdir :: path
  proof (induction keep topdir es rule: os_walk.induct)
    case (1 keep topdir entries)
    show ?case
    proof
      assume all: "\<forall>d. keep d"
      show "P entries"
      proof (rule step)
        fix d sub
        assume "Dir d sub \<in> set entries"
        with "1.IH" all show "P sub" by blast
      qed
    qed
  qed
  from this [of "\<lambda>d. True"] show ?thesis by simp
qed

lemma concat_map_concat_map:
  "concat (map F (concat (map G es))) = concat (map (\<lambda>e. concat (map F (G e))) es)"
  by (induction es) auto

lemma selected_unfold:
  "selected topdir ef ed af es =
     map (\<lambda>file. topdir @ [file]) (filter (qualifies ef af topdir) (file_names es)) @
     concat (map (\<lambda>e. case e of
                         Dir d sub \<Rightarrow> if d \<notin> ed then selected (topdir @ [d]) ef ed af sub else []
                       | File f \<Rightarrow> [])
                 es)"
proof -
  have "(\<lambda>e. concat (map (\<lambda>(root, dirs, files).
                 map (\<lambda>file. root @ [file]) (filter (qualifies ef af root) files))
            (case e of Dir d sub \<Rightarrow> if d \<notin> ed then os_walk (\<lambda>d. d \<notin> ed) (topdir @ [d]) sub else []
                     | File f \<Rightarrow> []))) =
        (\<lambda>e. case e of
                Dir d sub \<Rightarrow> if d \<notin> ed then selected (topdir @ [d]) ef ed af sub else []
              | File f \<Rightarrow> [])"
    by (auto simp: selected_def fun_eq_iff split: node.splits)
  then show ?thesis
    unfolding selected_def [of topdir]
    by (subst os_walk.simps) (simp add: concat_map_concat_map)
qed

lemma file_names_iff: "f \<in> set (file_names es) \<longleftrightarrow> File f \<in> set es"
  by (induction es rule: file_names.induct) auto

lemma subdirs_at_Cons:
  "sub \<in> set (subdirs_at (d # ds) es) \<longleftrightarrow> (\<exists>sub0. Dir d sub0 \<in> set es \<and> sub \<in> set (subdirs_at ds sub0))"
  by (auto split: node.splits if_splits)

lemma selected_iff_aux:
  "p \<in> set (selected topdir ef ed af es) \<longleftrightarrow>
     (\<exists>ds f sub. p = topdir @ ds @ [f] \<and> set ds \<inter> ed = {} \<and> sub \<in> set (subdirs_at ds es) \<and>
        f \<in> set (file_names sub) \<and> qualifies ef af (topdir @ ds) f)"
proof (induction es arbitrary: topdir p rule: listing_induct)
  case (listing es)
  show ?case (is "?L \<longleftrightarrow> ?R")
  proof
    assume ?L
    then consider f where "f \<in> set (file_names es)" "qualifies ef af topdir f" "p = topdir @ [f]"
      | d sub where "Dir d sub \<in> set es" "d \<notin> ed" "p \<in> set (selected (topdir @ [d]) ef ed af sub)"
      by (subst (asm) selected_unfold) (auto split: node.splits if_splits)
    then show ?R
    proof cases
      case 1
      then have "p = topdir @ [] @ [f] \<and> set [] \<inter> ed = {} \<and> es \<in> set (subdirs_at [] es) \<and>
        f \<in> set (file_names es) \<and> qualifies ef af (topdir @ []) f" by simp
      then show ?thesis by blast
    next
      case 2
      from listing [OF 2(1)] 2(3) obtain ds f sub' where
        *: "p = (topdir @ [d]) @ ds @ [f]" "set ds \<inter> ed = {}" "sub' \<in> set (subdirs_at ds sub)"
          "f \<in> set (file_names sub')" "qualifies ef af ((topdir @ [d]) @ ds) f"
        by blast
      have "sub' \<in> set (subdirs_at (d # ds) es)"
        using 2(1) *(3) by (auto simp: subdirs_at_Cons)
      with * 2(2) have "p = topdir @ (d # ds) @ [f] \<and> set (d # ds) \<inter> ed = {} \<and>
         sub' \<in> set (subdirs_at (d # ds) es) \<and> f \<in> set (file_names sub') \<and>
         qualifies ef af (topdir @ (d # ds)) f"
        by simp
      then show ?thesis by blast
    qed
  next
    assume ?R
    then obtain ds f sub where
      *: "p = topdir @ ds @ [f]" "set ds \<inter> ed = {}" "sub \<in> set (subdirs_at ds es)"
         "f \<in> set (file_names sub)" "qualifies ef af (topdir @ ds) f"
      by blast
    show ?L
    proof (cases ds)
      case Nil
      with * show ?thesis
        by (subst selected_unfold) auto
    next
      case (Cons d ds')
      with *(3) obtain sub0 where s: "Dir d sub0 \<in> set es" "sub \<in> set (subdirs_at ds' sub0)"
        by (auto simp: subdirs_at_Cons)
      have "p \<in> set (selected (topdir @ [d]) ef ed af sub0)"
        unfolding listing [OF s(1)]
        using * s Cons by auto
      moreover have "d \<notin> ed" using *(2) Cons by auto
      ultimately show ?thesis
        using s(1) by (subst selected_unfold) (auto split: node.splits intro!: bexI [of _ "Dir d sub0"])
    qed
  qed
qed

lemma selected_iff:
  "p \<in> set (selected fp ef ed af es) \<longleftrightarrow>
     (\<exists>rel. p = fp @ rel \<and> has_file es rel \<and> set (butlast rel) \<inter> ed = {} \<and>
        (af \<or> endswith (last rel) ''.py'') \<and> p \<notin> ef)"
proof
  assume "p \<in> set (selected fp ef ed af es)"
  then obtain ds f sub where
    *: "p = fp @ ds @ [f]" "set ds \<inter> ed = {}" "sub \<in> set (subdirs_at ds es)"
       "f \<in> set (file_names sub)" "qualifies ef af (fp @ ds) f"
    unfolding selected_iff_aux by blast
  then have "p = fp @ (ds @ [f]) \<and> has_file es (ds @ [f]) \<and> set (butlast (ds @ [f])) \<inter> ed = {} \<and>
        (af \<or> endswith (last (ds @ [f])) ''.py'') \<and> p \<notin> ef"
    by (auto simp: has_file_def qualifies_def list_ex_iff)
  then show "\<exists>rel. p = fp @ rel \<and> has_file es rel \<and> set (butlast rel) \<inter> ed = {} \<and>
        (af \<or> endswith (last rel) ''.py'') \<and> p \<notin> ef"
    by blast
next
  assume "\<exists>rel. p = fp @ rel \<and> has_file es rel \<and> set (butlast rel) \<inter> ed = {} \<and>
        (af \<or> endswith (last rel) ''.py'') \<and> p \<notin> ef"
  then obtain rel where
    *: "p = fp @ rel" "has_file es rel" "set (butlast rel) \<inter> ed = {}"
       "af \<or> endswith (last rel) ''.py''" "p \<notin> ef"
    by blast
  from *(2) have ne: "rel \<noteq> []" by (simp add: has_file_def)
  then have rel: "rel = butlast rel @ [last rel]" by simp
  from *(2) obtain sub where "sub \<in> set (subdirs_at (butlast rel) es)" "last rel \<in> set (file_names sub)"
    by (auto simp: has_file_def list_ex_iff)
  with * rel have "p = fp @ butlast rel @ [last rel] \<and> set (butlast rel) \<inter> ed = {} \<and>
      sub \<in> set (subdirs_at (butlast rel) es) \<and> last rel \<in> set (file_names sub) \<and>
      qualifies ef af (fp @ butlast rel) (last rel)"
    by (auto simp: qualifies_def)
  then show "p \<in> set (selected fp ef ed af es)"
    unfolding selected_iff_aux by blast
qed

lemma os_walk_kept:
  "(root, ds, fs) \<in> set (os_walk keep topdir es) \<Longrightarrow>
     \<exists>dp. root = topdir @ dp \<and> list_all keep dp \<and> list_all keep ds"
proof (induction keep topdir es arbitrary: root ds fs rule: os_walk.induct)
  case (1 keep topdir entries)
  from "1.prems" consider "root = topdir" "ds = filter keep (dir_names entries)"
    | d sub where "Dir d sub \<in> set entries" "keep d"
        "(root, ds, fs) \<in> set (os_walk keep (topdir @ [d]) sub)"
    by (subst (asm) os_walk.simps) (auto split: node.splits if_splits)
  then show ?case
  proof cases
    case 1
    then have "root = topdir @ [] \<and> list_all keep [] \<and> list_all keep ds"
      by (simp add: list_all_iff)
    then show ?thesis by blast
  next
    case 2
    then obtain dp where "root = (topdir @ [d]) @ dp" "list_all keep dp" "list_all keep ds"
      using "1.IH" by blast
    with 2(2) have "root = topdir @ (d # dp) \<and> list_all keep (d # dp) \<and> list_all keep ds"
      by simp
    then show ?thesis by blast
  qed
qed

lemma selected_below_root:
  "p \<in> set (selected fp ef ed af es) \<Longrightarrow>
     \<exists>rel. p = fp @ rel \<and> rel \<noteq> [] \<and> set (butlast rel) \<inter> ed = {}"
  unfolding selected_iff by (auto simp: has_file_def)

lemma distinct_concat_map:
  assumes "distinct (map key xs)"
    and "\<And>x. x \<in> set xs \<Longrightarrow> distinct (g x)"
    and "\<And>x y. x \<in> set xs \<Longrightarrow> y \<in> set xs \<Longrightarrow> key x \<noteq> key y \<Longrightarrow> set (g x) \<inter> set (g y) = {}"
  shows "distinct (concat (map g xs))"
  using assms
proof (induction xs)
  case Nil
  show ?case by simp
next
  case (Cons x xs)
  have tl: "distinct (concat (map g xs))"
    using Cons.prems by (intro Cons.IH) auto
  have "set (g x) \<inter> set (g y) = {}" if "y \<in> set xs" for y
  proof -
    have "key x \<noteq> key y" using Cons.prems(1) that by auto
    then show ?thesis using Cons.prems(3) [of x y] that by simp
  qed
  then have "set (g x) \<inter> (\<Union>y\<in>set xs. set (g y)) = {}" by blast
  moreover have "distinct (g x)" using Cons.prems(2) by simp
  ultimately show ?case using tl by simp
qed

lemma distinct_file_names: "distinct (map node_name es) \<Longrightarrow> distinct (file_names es)"
proof (induction es rule: file_names.induct)
  case (2 f es)
  have "f \<notin> set (file_names es)"
  proof
    assume "f \<in> set (file_names es)"
    then have "File f \<in> set es" by (simp add: file_names_iff)
    then have "node_name (File f) \<in> node_name ` set es" by (rule imageI)
    with 2(2) show False by simp
  qed
  with 2 show ?case by simp
qed simp_all

lemma selected_below:
  "p \<in> set (selected (topdir @ [d]) ef ed af sub) \<Longrightarrow> \<exists>r. p = topdir @ d # r \<and> r \<noteq> []"
  unfolding selected_iff_aux by auto

lemma distinct_selected:
  "wf_listing es \<Longrightarrow> distinct (selected topdir ef ed af es)"
proof (induction es arbitrary: topdir rule: listing_induct)
  case (listing es)
  let ?A = "map (\<lambda>file. topdir @ [file]) (filter (qualifies ef af topdir) (file_names es))"
  let ?g = "\<lambda>e. case e of
                  Dir d sub \<Rightarrow> if d \<notin> ed then selected (topdir @ [d]) ef ed af sub else []
                | File f \<Rightarrow> []"
  from listing.prems have names: "distinct (map node_name es)"
    and subs: "\<And>d sub. Dir d sub \<in> set es \<Longrightarrow> wf_listing sub"
    by (force simp: wf_listing_def list_all_iff)+
  have "inj_on (\<lambda>file. topdir @ [file]) (set (filter (qualifies ef af topdir) (file_names es)))"
    by (rule inj_onI) simp
  then have dA: "distinct ?A"
    using distinct_file_names [OF names] by (simp add: distinct_map)
  have dg: "distinct (?g e)" if "e \<in> set es" for e
  proof (cases e)
    case (File f)
    then show ?thesis by simp
  next
    case (Dir d sub)
    with that listing.IH subs show ?thesis by auto
  qed
  have shape: "\<exists>r. p = topdir @ node_name e # r \<and> r \<noteq> []" if "p \<in> set (?g e)" for p e
  proof (cases e)
    case (File f)
    with that show ?thesis by simp
  next
    case (Dir d sub)
    with that show ?thesis by (auto split: if_splits dest: selected_below)
  qed
  have disj: "set (?g x) \<inter> set (?g y) = {}" if "node_name x \<noteq> node_name y" for x y
  proof (rule ccontr)
    assume "set (?g x) \<inter> set (?g y) \<noteq> {}"
    then obtain p where "p \<in> set (?g x)" "p \<in> set (?g y)" by blast
    then obtain r r' where "p = topdir @ node_name x # r" "p = topdir @ node_name y # r'"
      using shape by blast
    then show False using that by simp
  qed
  have dB: "distinct (concat (map ?g es))"
    by (rule distinct_concat_map [where key = node_name]) (use names dg disj in auto)
  have AB: "set ?A \<inter> set (concat (map ?g es)) = {}"
  proof (rule ccontr)
    assume "set ?A \<inter> set (concat (map ?g es)) \<noteq> {}"
    then obtain p e where "p \<in> set ?A" "p \<in> set (?g e)" by auto
    then obtain f r where "p = topdir @ [f]" "p = topdir @ node_name e # r" "r \<noteq> []"
      using shape by fastforce
    then show False by simp
  qed
  show ?case
    by (subst selected_unfold) (use dA dB AB in simp)
qed

lemma file_names_dirs_only:
  "(\<And>f. File f \<notin> set es) \<Longrightarrow> file_names es = []"
  by (induction es rule: file_names.induct) auto

lemma no_files_selected:
  "no_files ed es \<Longrightarrow> selected topdir ef ed af es = []"
proof (induction es arbitrary: topdir rule: listing_induct)
  case (listing es)
  from listing.prems have nf: "\<And>f. File f \<notin> set es"
    and subs: "\<And>d sub. Dir d sub \<in> set es \<Longrightarrow> d \<in> ed \<or> no_files ed sub"
    by (force simp: no_files_def list_all_iff)+
  have "(case e of Dir d sub \<Rightarrow> if d \<notin> ed then selected (topdir @ [d]) ef ed af sub else []
          | File f \<Rightarrow> []) = []" if "e \<in> set es" for e
  proof (cases e)
    case (File f)
    then show ?thesis by simp
  next
    case (Dir d sub)
    then show ?thesis
      using that listing.IH [of d sub] subs [of d sub] by auto
  qed
  then show ?case
    by (subst selected_unfold) (simp add: file_names_dirs_only [OF nf])
qed

text \<open>
  \<open>no_files\<close> says what it is meant to: every regular file of the tree lies below a
  directory that is excluded.
\<close>

lemma has_file_single: "has_file es [f] \<longleftrightarrow> File f \<in> set es"
  by (simp add: has_file_def file_names_iff)

lemma has_file_Cons:
  "rel \<noteq> [] \<Longrightarrow> has_file es (d # rel) \<longleftrightarrow> (\<exists>sub. Dir d sub \<in> set es \<and> has_file sub rel)"
proof -
  assume ne: "rel \<noteq> []"
  have "(\<exists>sub\<in>set (subdirs_at (d # butlast rel) es). Q sub) \<longleftrightarrow>
        (\<exists>sub0. Dir d sub0 \<in> set es \<and> (\<exists>sub\<in>set (subdirs_at (butlast rel) sub0). Q sub))" for Q
    unfolding Bex_def subdirs_at_Cons by blast
  then show ?thesis
    using ne by (simp add: has_file_def list_ex_iff del: subdirs_at.simps)
qed

lemma no_files_iff:
  "no_files ed es \<longleftrightarrow> (\<forall>rel. has_file es rel \<longrightarrow> set (butlast rel) \<inter> ed \<noteq> {})"
proof
  assume nf: "no_files ed es"
  show "\<forall>rel. has_file es rel \<longrightarrow> set (butlast rel) \<inter> ed \<noteq> {}"
  proof (intro allI impI notI)
    fix rel
    assume "has_file es rel" "set (butlast rel) \<inter> ed = {}"
    then have "[] @ rel \<in> set (selected [] {} ed True es)"
      unfolding selected_iff by blast
    with no_files_selected [OF nf] show False by simp
  qed
next
  show "\<forall>rel. has_file es rel \<longrightarrow> set (butlast rel) \<inter> ed \<noteq> {} \<Longrightarrow> no_files ed es"
  proof (induction es rule: listing_induct)
    case (listing es)
    have "no_files_node ed e" if e: "e \<in> set es" for e
    proof (cases e)
      case (File f)
      with e have "has_file es [f]" by (simp add: has_file_single)
      with listing.prems have "set (butlast [f]) \<inter> ed \<noteq> {}" by blast
      then show ?thesis by simp
    next
      case (Dir d sub)
      show ?thesis
      proof (cases "d \<in> ed")
        case True
        with Dir show ?thesis by simp
      next
        case False
        have "\<forall>rel. has_file sub rel \<longrightarrow> set (butlast rel) \<inter> ed \<noteq> {}"
        proof (intro allI impI)
          fix rel
          assume h: "has_file sub rel"
          then have ne: "rel \<noteq> []" by (simp add: has_file_def)
          with h e Dir have "has_file es (d # rel)" by (auto simp: has_file_Cons)
          with listing.prems have "set (butlast (d # rel)) \<inter> ed \<noteq> {}" by blast
          with ne False show "set (butlast rel) \<inter> ed \<noteq> {}" by simp
        qed
        with listing.IH [of d sub] e Dir have "no_files ed sub" by blast
        with Dir show ?thesis by (simp add: no_files_def)
      qed
    qed
    then show ?case by (simp add: no_files_def list_all_iff)
  qed
qed

section \<open>The specification's operation\<close>

lemma resolve_emit: "resolve (snd (emit fp ps st)) = resolve (snd st)"
  by (simp add: emit_def after_reading_def)

lemma collect_visit_emit:
  assumes "take (length fp) dir = fp"
  shows "collect_visit fp fex af inc exc dir file st =
         Inr (emit fp (if spec_emitted af inc exc fex (resolve (snd st) (dir @ [file])) file
                       then [dir @ [file]] else []) st)"
  using assms
  by (auto simp: collect_visit_def spec_emitted_def emit_def after_reading_def relative_to_def
        read_file_def Let_def record_text_def header_def body_def warning_of_def
        split: sum.splits prod.splits)

lemma collect_inner_emit:
  assumes "take (length fp) dir = fp"
  shows "for_each (collect_visit fp fex af inc exc dir) files st =
         Inr (emit fp (map (\<lambda>file. dir @ [file])
                (filter (\<lambda>file. spec_emitted af inc exc fex (resolve (snd st) (dir @ [file])) file)
                   files)) st)"
proof (induction files arbitrary: st)
  case Nil
  show ?case by (simp add: emit_Nil)
next
  case (Cons f files)
  have "collect_visit fp fex af inc exc dir f st =
        Inr (emit fp (if spec_emitted af inc exc fex (resolve (snd st) (dir @ [f])) f
                      then [dir @ [f]] else []) st)"
    by (rule collect_visit_emit [OF assms])
  then show ?case
    by (simp add: Cons.IH emit_emit emit_Nil resolve_emit)
qed

lemma collect_outer_emit:
  assumes "\<And>dir ds fs. (dir, ds, fs) \<in> set triples \<Longrightarrow> take (length fp) dir = fp"
  shows "for_each (\<lambda>(dir, dirs, files). for_each (collect_visit fp fex af inc exc dir) files)
           triples st =
         Inr (emit fp (concat (map (\<lambda>(dir, dirs, files).
                  map (\<lambda>file. dir @ [file])
                    (filter (\<lambda>file. spec_emitted af inc exc fex (resolve (snd st) (dir @ [file])) file)
                       files)) triples)) st)"
  using assms
proof (induction triples arbitrary: st)
  case Nil
  show ?case by (simp add: emit_Nil)
next
  case (Cons t triples)
  obtain dir ds fs where t: "t = (dir, ds, fs)" by (cases t)
  have r: "take (length fp) dir = fp" using Cons.prems t by auto
  have rest: "\<And>dir ds fs. (dir, ds, fs) \<in> set triples \<Longrightarrow> take (length fp) dir = fp"
    using Cons.prems by auto
  have "for_each (collect_visit fp fex af inc exc dir) fs st =
        Inr (emit fp (map (\<lambda>file. dir @ [file])
               (filter (\<lambda>file. spec_emitted af inc exc fex (resolve (snd st) (dir @ [file])) file)
                  fs)) st)"
    by (rule collect_inner_emit [OF r])
  then show ?case
    by (simp add: t Cons.IH [OF rest] emit_emit resolve_emit)
qed

lemma collect_spec_selected:
  "collect fp fex dex af inc exc w =
     Inr (concat (map (record_text fp (contents w)) (spec_selected fp fex dex af inc exc w)),
          after_reading w (spec_selected fp fex dex af inc exc w))"
proof -
  have "for_each (\<lambda>(dir, dirs, files). for_each (collect_visit fp fex af inc exc dir) files)
          (os_walk (\<lambda>d. d \<notin> dex) fp (listing w)) ([], w) =
        Inr (emit fp (spec_selected fp fex dex af inc exc w) ([], w))"
    unfolding spec_selected_def
    using collect_outer_emit [of "os_walk (\<lambda>d. d \<notin> dex) fp (listing w)" fp fex af inc exc "([], w)"]
      os_walk_root_prefix
    by simp
  then show ?thesis
    by (simp add: collect_def emit_def)
qed

lemma spec_selected_not_denied:
  "p \<in> set (spec_selected fp fex dex af inc exc w) \<Longrightarrow>
     \<exists>dir file. p = dir @ [file] \<and> extension file \<notin> lower ` exc"
  by (auto simp: spec_selected_def spec_emitted_def)

text \<open>
  Where the source can be called as the specification's operation, with all files
  wanted, nothing denied and no symbolic link in the way, the two agree.
\<close>

lemma collect_all_files_is_collect_files:
  assumes "resolve w = (\<lambda>p. p)"
  shows "collect fp fex dex True inc {} w = collect_files fp fex dex True w"
proof -
  have q: "qualifies fex True = (\<lambda>dir file. dir @ [file] \<notin> fex)"
    by (intro ext) (simp add: qualifies_def)
  have "spec_selected fp fex dex True inc {} w = selected fp fex dex True (listing w)"
    by (simp add: spec_selected_def selected_def spec_emitted_def q assms)
  then show ?thesis
    by (simp add: collect_spec_selected collect_files_selected)
qed

section \<open>File exclusions\<close>

text \<open>
  C6, as stated, fails: lines 44 and 46 test the path that the walk joins,
  \<open>Path(root) / file\<close>, and never resolve it. With \<open>b.py\<close> a symbolic link to \<open>a.py\<close>
  and the path of \<open>a.py\<close> excluded, the resolved path of \<open>b.py\<close> is a member of
  \<open>exclude_files\<close>, and \<open>b.py\<close> is opened and emitted all the same.
\<close>

theorem resolved_path_not_checked_counterexample:
  "resolve link_world [''tmp'', ''proj'', ''b.py''] \<in> {[''tmp'', ''proj'', ''a.py'']} \<and>
   collect_files [''tmp'', ''proj''] {[''tmp'', ''proj'', ''a.py'']} {} False link_world =
     Inr (''[proj/b.py]\<newline>x\<newline>\<newline>'',
          link_world\<lparr>opened := [[''tmp'', ''proj'', ''b.py'']]\<rparr>)"
proof
  show "resolve link_world [''tmp'', ''proj'', ''b.py''] \<in> {[''tmp'', ''proj'', ''a.py'']}"
    by (simp add: link_world_def)
  have sel: "selected [''tmp'', ''proj''] {[''tmp'', ''proj'', ''a.py'']} {} False
               (listing link_world) =
             [[''tmp'', ''proj'', ''b.py'']]"
    by (simp add: selected_def link_world_def walk_eval qualifies_def endswith_def)
  have rec: "record_text [''tmp'', ''proj''] (contents link_world) [''tmp'', ''proj'', ''b.py''] =
        ''[proj/b.py]\<newline>x\<newline>\<newline>''"
    by (simp add: record_text_def header_def body_def path_name_def link_world_def)
  have aft: "after_reading link_world [[''tmp'', ''proj'', ''b.py'']] =
        link_world\<lparr>opened := [[''tmp'', ''proj'', ''b.py'']]\<rparr>"
    by (simp add: after_reading_def warning_of_def link_world_def)
  show "collect_files [''tmp'', ''proj''] {[''tmp'', ''proj'', ''a.py'']} {} False link_world =
     Inr (''[proj/b.py]\<newline>x\<newline>\<newline>'',
          link_world\<lparr>opened := [[''tmp'', ''proj'', ''b.py'']]\<rparr>)"
    unfolding collect_files_selected sel by (simp add: rec aft)
qed

text \<open>
  C6, amended. A file whose full path as the walk joins it (the directory the walk is
  in, then the file name, with no symbolic link resolved) is a member of
  \<open>exclude_files\<close> is never opened and gets no record, whatever its name and whatever
  \<open>all_files\<close> is: the call returns the records of the selected files, opens exactly
  those, and the excluded path is not among them.
\<close>

theorem excluded_file_never_emitted:
  assumes "p \<in> exclude_files"
  shows "collect_files folder_path exclude_files exclude_dirs all_files w =
           Inr (concat (map (record_text folder_path (contents w))
                           (selected folder_path exclude_files exclude_dirs all_files (listing w))),
                after_reading w
                  (selected folder_path exclude_files exclude_dirs all_files (listing w))) \<and>
         p \<notin> set (selected folder_path exclude_files exclude_dirs all_files (listing w))"
  using assms collect_files_selected selected_not_excluded by blast

theorem excluded_file_never_emitted_witness:
  "[''tmp'', ''proj'', ''test.py''] \<in> {[''tmp'', ''proj'', ''test.py'']} \<and>
   selected [''tmp'', ''proj''] {[''tmp'', ''proj'', ''test.py'']} {''build''} True
     (listing example_world) =
     [[''tmp'', ''proj'', ''Test.PY''], [''tmp'', ''proj'', ''Test.java''],
      [''tmp'', ''proj'', ''readme.txt''], [''tmp'', ''proj'', ''subdir'', ''sub.py''],
      [''tmp'', ''proj'', ''subdir'', ''build'']] \<and>
   [''tmp'', ''proj'', ''test.py''] \<notin>
     set (selected [''tmp'', ''proj''] {[''tmp'', ''proj'', ''test.py'']} {''build''} True
            (listing example_world))"
proof -
  have "selected [''tmp'', ''proj''] {[''tmp'', ''proj'', ''test.py'']} {''build''} True
          (listing example_world) =
        [[''tmp'', ''proj'', ''Test.PY''], [''tmp'', ''proj'', ''Test.java''],
         [''tmp'', ''proj'', ''readme.txt''], [''tmp'', ''proj'', ''subdir'', ''sub.py''],
         [''tmp'', ''proj'', ''subdir'', ''build'']]"
    by (simp add: selected_def example_world_def example_listing_def walk_eval qualifies_def)
  moreover have "[''tmp'', ''proj'', ''test.py''] \<in> {[''tmp'', ''proj'', ''test.py'']}"
    by simp
  moreover from this have "[''tmp'', ''proj'', ''test.py''] \<notin>
     set (selected [''tmp'', ''proj''] {[''tmp'', ''proj'', ''test.py'']} {''build''} True
            (listing example_world))"
    using excluded_file_never_emitted
      [of "[''tmp'', ''proj'', ''test.py'']" "{[''tmp'', ''proj'', ''test.py'']}"
          "[''tmp'', ''proj'']" "{''build''}" True example_world]
    by blast
  ultimately show ?thesis by blast
qed

section \<open>Extension filters\<close>

text \<open>
  C1. The specification's filter has an allow-list \<open>includeExtensions\<close>. The source has
  none: line 41 keeps, when \<open>all_files\<close> is false, the names that end in \<open>.py\<close>. For a
  root that holds \<open>Test.java\<close> the call returns the empty text, while the specification's
  filter, with the allow-list of the repository's tests, emits the file.
\<close>

theorem allow_list_is_py_only:
  "collect_files [''tmp'', ''proj''] {} {} False (single_file_world ''Test.java'' ''class Test {}'') =
     Inr ([], single_file_world ''Test.java'' ''class Test {}'') \<and>
   spec_emitted False {''.py'', ''.java'', ''.c'', ''.cpp'', ''.h'', ''.hpp''} {} {}
     [''tmp'', ''proj'', ''Test.java''] ''Test.java''"
proof
  show "collect_files [''tmp'', ''proj''] {} {} False
          (single_file_world ''Test.java'' ''class Test {}'') =
        Inr ([], single_file_world ''Test.java'' ''class Test {}'')"
    by (simp add: collect_files_def single_file_world_def walk_eval visit_file_def endswith_def)
  show "spec_emitted False {''.py'', ''.java'', ''.c'', ''.cpp'', ''.h'', ''.hpp''} {} {}
          [''tmp'', ''proj'', ''Test.java''] ''Test.java''"
    by (simp add: spec_emitted_def extension_def lower_def lower_char_def)
qed

text \<open>
  C2. The source's \<open>collect_files\<close> has no deny-list: no call of it can name an
  extension to exclude, and with \<open>all_files\<close> true it agrees with the specification's
  operation for an empty deny-list (\<open>collect_all_files_is_collect_files\<close>). The property
  is therefore one of the specification's operation \<open>collect\<close>: a file whose extension
  is a member of \<open>excludeExtensions\<close> is never opened and gets no record, whatever
  \<open>allFiles\<close> and \<open>includeExtensions\<close> are. The call returns the records of the files
  that pass the specification's filter, opens exactly those, and no file with a denied
  extension is among them.
\<close>

theorem deny_list_always_wins:
  assumes "extension file \<in> lower ` excludeExtensions"
  shows "collect root fileExclusions dirExclusions allFiles includeExtensions excludeExtensions w =
           Inr (concat (map (record_text root (contents w))
                           (spec_selected root fileExclusions dirExclusions allFiles
                              includeExtensions excludeExtensions w)),
                after_reading w
                  (spec_selected root fileExclusions dirExclusions allFiles
                     includeExtensions excludeExtensions w)) \<and>
         dir @ [file] \<notin> set (spec_selected root fileExclusions dirExclusions allFiles
                                includeExtensions excludeExtensions w)"
proof
  show "collect root fileExclusions dirExclusions allFiles includeExtensions excludeExtensions w =
           Inr (concat (map (record_text root (contents w))
                           (spec_selected root fileExclusions dirExclusions allFiles
                              includeExtensions excludeExtensions w)),
                after_reading w
                  (spec_selected root fileExclusions dirExclusions allFiles
                     includeExtensions excludeExtensions w))"
    by (rule collect_spec_selected)
  show "dir @ [file] \<notin> set (spec_selected root fileExclusions dirExclusions allFiles
                                includeExtensions excludeExtensions w)"
  proof
    assume "dir @ [file] \<in> set (spec_selected root fileExclusions dirExclusions allFiles
                                includeExtensions excludeExtensions w)"
    from spec_selected_not_denied [OF this]
    obtain dir' file' where eq: "dir @ [file] = dir' @ [file']"
      and nd: "extension file' \<notin> lower ` excludeExtensions"
      by blast
    from eq have "file = file'" by simp
    with nd assms show False by simp
  qed
qed

theorem deny_list_always_wins_witness:
  "extension ''readme.txt'' \<in> lower ` {''.txt'', ''.java''} \<and>
   spec_selected [''tmp'', ''proj''] {} {''build''} True {''.py'', ''.java''} {''.txt'', ''.java''}
     example_world =
     [[''tmp'', ''proj'', ''test.py''], [''tmp'', ''proj'', ''Test.PY''],
      [''tmp'', ''proj'', ''subdir'', ''sub.py''], [''tmp'', ''proj'', ''subdir'', ''build'']] \<and>
   [''tmp'', ''proj''] @ [''readme.txt''] \<notin>
     set (spec_selected [''tmp'', ''proj''] {} {''build''} True {''.py'', ''.java''}
            {''.txt'', ''.java''} example_world)"
proof -
  have e: "extension ''test.py'' = ''.py''" "extension ''Test.PY'' = ''.py''"
    "extension ''Test.java'' = ''.java''" "extension ''readme.txt'' = ''.txt''"
    "extension ''sub.py'' = ''.py''" "extension ''build'' = []"
    by (simp_all add: extension_def lower_def lower_char_def)
  have l: "lower ''.txt'' = ''.txt''" "lower ''.java'' = ''.java''" "lower ''.py'' = ''.py''"
    by (simp_all add: lower_def lower_char_def)
  have ext: "extension ''readme.txt'' \<in> lower ` {''.txt'', ''.java''}"
    by (simp add: e l)
  have sel: "spec_selected [''tmp'', ''proj''] {} {''build''} True {''.py'', ''.java''}
       {''.txt'', ''.java''} example_world =
     [[''tmp'', ''proj'', ''test.py''], [''tmp'', ''proj'', ''Test.PY''],
      [''tmp'', ''proj'', ''subdir'', ''sub.py''], [''tmp'', ''proj'', ''subdir'', ''build'']]"
    by (simp add: spec_selected_def example_world_def example_listing_def walk_eval
        spec_emitted_def e l)
  from deny_list_always_wins [OF ext, of "[''tmp'', ''proj'']" "{}" "{''build''}" True
      "{''.py'', ''.java''}" example_world "[''tmp'', ''proj'']"]
  have "[''tmp'', ''proj''] @ [''readme.txt''] \<notin>
     set (spec_selected [''tmp'', ''proj''] {} {''build''} True {''.py'', ''.java''}
            {''.txt'', ''.java''} example_world)"
    by blast
  with ext sel show ?thesis by blast
qed

text \<open>
  C3. The test of line 41 compares characters: \<open>Test.PY\<close> is skipped and \<open>test.py\<close> is
  emitted, though both have the extension \<open>.py\<close> in the specification's sense.
\<close>

theorem extension_test_is_case_sensitive:
  "collect_files [''tmp'', ''proj''] {} {} False (single_file_world ''Test.PY'' ''uppercase py'') =
     Inr ([], single_file_world ''Test.PY'' ''uppercase py'') \<and>
   collect_files [''tmp'', ''proj''] {} {} False (single_file_world ''test.py'' ''uppercase py'') =
     Inr (''[proj/test.py]\<newline>uppercase py\<newline>\<newline>'',
          (single_file_world ''test.py'' ''uppercase py'')
            \<lparr>opened := [[''tmp'', ''proj'', ''test.py'']]\<rparr>) \<and>
   extension ''Test.PY'' = extension ''test.py''"
proof (intro conjI)
  show "collect_files [''tmp'', ''proj''] {} {} False
          (single_file_world ''Test.PY'' ''uppercase py'') =
        Inr ([], single_file_world ''Test.PY'' ''uppercase py'')"
    by (simp add: collect_files_def single_file_world_def walk_eval visit_file_def endswith_def)
  show "collect_files [''tmp'', ''proj''] {} {} False
          (single_file_world ''test.py'' ''uppercase py'') =
        Inr (''[proj/test.py]\<newline>uppercase py\<newline>\<newline>'',
             (single_file_world ''test.py'' ''uppercase py'')
               \<lparr>opened := [[''tmp'', ''proj'', ''test.py'']]\<rparr>)"
    by (simp add: collect_files_def single_file_world_def walk_eval visit_file_def endswith_def
        relative_to_def read_file_def path_name_def)
  show "extension ''Test.PY'' = extension ''test.py''"
    by (simp add: extension_def lower_def lower_char_def)
qed

section \<open>Directory pruning\<close>

text \<open>
  C4, as stated, fails for the components of the root itself: \<open>os.walk\<close> starts at
  \<open>folder_path\<close> whatever its name is, and line 37 filters only the subdirectories. With
  the root \<open>/tmp/venv\<close> and \<open>venv\<close> excluded, \<open>a.py\<close> is opened and emitted under the
  header \<open>[venv/a.py]\<close>.
\<close>

theorem root_is_never_pruned_counterexample:
  "collect_files [''tmp'', ''venv''] {} {''venv''} False (single_file_world ''a.py'' ''x'') =
     Inr (''[venv/a.py]\<newline>x\<newline>\<newline>'',
          (single_file_world ''a.py'' ''x'')\<lparr>opened := [[''tmp'', ''venv'', ''a.py'']]\<rparr>) \<and>
   set [''tmp'', ''venv'', ''a.py''] \<inter> {''venv''} \<noteq> {}"
  by (simp add: collect_files_def single_file_world_def walk_eval visit_file_def endswith_def
      relative_to_def read_file_def path_name_def)

text \<open>
  C4, amended. Below the root, no file that lies in a directory named in \<open>exclude_dirs\<close>
  is opened or gets a record: every file selected has a path \<open>folder_path @ rel\<close> in
  which no directory component of \<open>rel\<close> is excluded (the last component is the file's
  own name), the call opens and emits exactly the selected files, and every directory
  that \<open>os.walk\<close> visits is reached from the root through directories that are not
  excluded, with the excluded names removed from its \<open>dirs\<close>.
\<close>

theorem pruned_directories_never_entered:
  "collect_files folder_path exclude_files exclude_dirs all_files w =
     Inr (concat (map (record_text folder_path (contents w))
                     (selected folder_path exclude_files exclude_dirs all_files (listing w))),
          after_reading w
            (selected folder_path exclude_files exclude_dirs all_files (listing w))) \<and>
   (\<forall>p \<in> set (selected folder_path exclude_files exclude_dirs all_files (listing w)).
      \<exists>rel. p = folder_path @ rel \<and> rel \<noteq> [] \<and> set (butlast rel) \<inter> exclude_dirs = {}) \<and>
   (\<forall>(root, dirs, files) \<in> set (os_walk (\<lambda>d. d \<notin> exclude_dirs) folder_path (listing w)).
      \<exists>ds. root = folder_path @ ds \<and> set ds \<inter> exclude_dirs = {} \<and>
        set dirs \<inter> exclude_dirs = {})"
proof (intro conjI ballI)
  show "collect_files folder_path exclude_files exclude_dirs all_files w =
     Inr (concat (map (record_text folder_path (contents w))
                     (selected folder_path exclude_files exclude_dirs all_files (listing w))),
          after_reading w
            (selected folder_path exclude_files exclude_dirs all_files (listing w)))"
    by (rule collect_files_selected)
next
  fix p
  assume "p \<in> set (selected folder_path exclude_files exclude_dirs all_files (listing w))"
  then show "\<exists>rel. p = folder_path @ rel \<and> rel \<noteq> [] \<and> set (butlast rel) \<inter> exclude_dirs = {}"
    by (rule selected_below_root)
next
  fix t
  assume t: "t \<in> set (os_walk (\<lambda>d. d \<notin> exclude_dirs) folder_path (listing w))"
  obtain root dirs files where eq: "t = (root, dirs, files)" by (cases t)
  with t obtain dp where "root = folder_path @ dp" "list_all (\<lambda>d. d \<notin> exclude_dirs) dp"
    "list_all (\<lambda>d. d \<notin> exclude_dirs) dirs"
    using os_walk_kept by blast
  then have "root = folder_path @ dp \<and> set dp \<inter> exclude_dirs = {} \<and> set dirs \<inter> exclude_dirs = {}"
    by (auto simp: list_all_iff)
  then show "case t of (root, dirs, files) \<Rightarrow>
      \<exists>ds. root = folder_path @ ds \<and> set ds \<inter> exclude_dirs = {} \<and> set dirs \<inter> exclude_dirs = {}"
    unfolding eq by blast
qed

theorem pruned_directories_never_entered_witness:
  "selected [''tmp'', ''proj''] {} {''build''} True (listing example_world) =
     [[''tmp'', ''proj'', ''test.py''], [''tmp'', ''proj'', ''Test.PY''],
      [''tmp'', ''proj'', ''Test.java''], [''tmp'', ''proj'', ''readme.txt''],
      [''tmp'', ''proj'', ''subdir'', ''sub.py''], [''tmp'', ''proj'', ''subdir'', ''build'']] \<and>
   map fst (os_walk (\<lambda>d. d \<notin> {''build''}) [''tmp'', ''proj''] (listing example_world)) =
     [[''tmp'', ''proj''], [''tmp'', ''proj'', ''subdir'']] \<and>
   (\<exists>rel. [''tmp'', ''proj'', ''subdir'', ''sub.py''] = [''tmp'', ''proj''] @ rel \<and> rel \<noteq> [] \<and>
      set (butlast rel) \<inter> {''build''} = {})"
proof -
  have sel: "selected [''tmp'', ''proj''] {} {''build''} True (listing example_world) =
     [[''tmp'', ''proj'', ''test.py''], [''tmp'', ''proj'', ''Test.PY''],
      [''tmp'', ''proj'', ''Test.java''], [''tmp'', ''proj'', ''readme.txt''],
      [''tmp'', ''proj'', ''subdir'', ''sub.py''], [''tmp'', ''proj'', ''subdir'', ''build'']]"
    by (simp add: selected_def example_world_def example_listing_def walk_eval qualifies_def)
  have walk: "map fst (os_walk (\<lambda>d. d \<notin> {''build''}) [''tmp'', ''proj''] (listing example_world)) =
     [[''tmp'', ''proj''], [''tmp'', ''proj'', ''subdir'']]"
    by (simp add: example_world_def example_listing_def walk_eval)
  have "[''tmp'', ''proj'', ''subdir'', ''sub.py''] \<in>
          set (selected [''tmp'', ''proj''] {} {''build''} True (listing example_world))"
    by (simp add: sel)
  with pruned_directories_never_entered
         [of "[''tmp'', ''proj'']" "{}" "{''build''}" True example_world]
  have "\<exists>rel. [''tmp'', ''proj'', ''subdir'', ''sub.py''] = [''tmp'', ''proj''] @ rel \<and> rel \<noteq> [] \<and>
      set (butlast rel) \<inter> {''build''} = {}"
    by blast
  with sel walk show ?thesis by blast
qed

section \<open>Read failures\<close>

lemma record_text_eq:
  "record_text fp rd = (\<lambda>q. header fp q @ body (rd q) @ NL @ NL)"
  by (rule ext) (simp add: record_text_def)

lemma record_text_injected:
  "record_text fp (rd(p := Inl e)) =
     (\<lambda>q. if q = p then header fp p @ ''<<Error reading file: '' @ e @ ''>>'' @ NL @ NL
          else header fp q @ body (rd q) @ NL @ NL)"
  by (rule ext) (simp add: record_text_def body_def)

text \<open>
  C5. The call returns normally whatever the reads do: the model's only exception,
  the \<open>ValueError\<close> of \<open>relative_to\<close>, never occurs, and the result is \<open>Inr\<close> for every
  \<open>contents\<close>. Making one file \<open>p\<close> unreadable, with the error description \<open>e\<close>, leaves
  the list of files read and the records of all other files as they were; the record
  of \<open>p\<close> keeps its header and has the placeholder, which contains the word \<open>Error\<close>,
  for content.
\<close>

theorem read_failure_is_recovered:
  "collect_files folder_path exclude_files exclude_dirs all_files w =
     Inr (concat (map (\<lambda>q. header folder_path q @ body (contents w q) @ NL @ NL)
                     (selected folder_path exclude_files exclude_dirs all_files (listing w))),
          after_reading w
            (selected folder_path exclude_files exclude_dirs all_files (listing w))) \<and>
   collect_files folder_path exclude_files exclude_dirs all_files
       (w\<lparr>contents := (contents w)(p := Inl e)\<rparr>) =
     Inr (concat (map (\<lambda>q. if q = p
                            then header folder_path p @ ''<<Error reading file: '' @ e @ ''>>'' @
                                 NL @ NL
                            else header folder_path q @ body (contents w q) @ NL @ NL)
                     (selected folder_path exclude_files exclude_dirs all_files (listing w))),
          after_reading (w\<lparr>contents := (contents w)(p := Inl e)\<rparr>)
            (selected folder_path exclude_files exclude_dirs all_files (listing w))) \<and>
   (\<exists>a b. ''<<Error reading file: '' @ e @ ''>>'' = a @ ''Error'' @ b)"
proof (intro conjI)
  show "collect_files folder_path exclude_files exclude_dirs all_files w =
     Inr (concat (map (\<lambda>q. header folder_path q @ body (contents w q) @ NL @ NL)
                     (selected folder_path exclude_files exclude_dirs all_files (listing w))),
          after_reading w
            (selected folder_path exclude_files exclude_dirs all_files (listing w)))"
    using collect_files_selected [of folder_path exclude_files exclude_dirs all_files w]
    by (simp add: record_text_eq)
  show "collect_files folder_path exclude_files exclude_dirs all_files
       (w\<lparr>contents := (contents w)(p := Inl e)\<rparr>) =
     Inr (concat (map (\<lambda>q. if q = p
                            then header folder_path p @ ''<<Error reading file: '' @ e @ ''>>'' @
                                 NL @ NL
                            else header folder_path q @ body (contents w q) @ NL @ NL)
                     (selected folder_path exclude_files exclude_dirs all_files (listing w))),
          after_reading (w\<lparr>contents := (contents w)(p := Inl e)\<rparr>)
            (selected folder_path exclude_files exclude_dirs all_files (listing w)))"
    using collect_files_selected [of folder_path exclude_files exclude_dirs all_files
        "w\<lparr>contents := (contents w)(p := Inl e)\<rparr>"]
    by (simp add: record_text_injected)
  have "''<<Error reading file: '' @ e @ ''>>'' = ''<<'' @ ''Error'' @ ('' reading file: '' @ e @ ''>>'')"
    by simp
  then show "\<exists>a b. ''<<Error reading file: '' @ e @ ''>>'' = a @ ''Error'' @ b"
    by blast
qed

theorem read_failure_is_recovered_witness:
  "collect_files [''tmp'', ''proj''] {} {''subdir'', ''build''} False
       (example_world\<lparr>contents := (contents example_world)
                         ([''tmp'', ''proj'', ''test.py''] := Inl ''denied'')\<rparr>) =
     Inr (''[proj/test.py]\<newline><<Error reading file: denied>>\<newline>\<newline>'',
          after_reading (example_world\<lparr>contents := (contents example_world)
                         ([''tmp'', ''proj'', ''test.py''] := Inl ''denied'')\<rparr>)
            [[''tmp'', ''proj'', ''test.py'']])"
proof -
  have sel: "selected [''tmp'', ''proj''] {} {''subdir'', ''build''} False (listing example_world) =
     [[''tmp'', ''proj'', ''test.py'']]"
    by (simp add: selected_def example_world_def example_listing_def walk_eval qualifies_def
        endswith_def)
  show ?thesis
    using read_failure_is_recovered
      [of "[''tmp'', ''proj'']" "{}" "{''subdir'', ''build''}" False example_world
          "[''tmp'', ''proj'', ''test.py'']" "''denied''"]
    by (simp add: sel header_def path_name_def)
qed

section \<open>Repeated calls\<close>

text \<open>
  C7. The call leaves the filesystem (the tree, what reading each file gives and where
  the symbolic links lead) as it was, adding only to the traces of opened files and
  logged warnings; a second call with the same arguments, made in the world the first
  one left, returns the same text.
\<close>

theorem collect_files_repeatable:
  "\<exists>text w1 w2.
     collect_files folder_path exclude_files exclude_dirs all_files w = Inr (text, w1) \<and>
     listing w1 = listing w \<and> contents w1 = contents w \<and> resolve w1 = resolve w \<and>
     collect_files folder_path exclude_files exclude_dirs all_files w1 = Inr (text, w2)"
  by (simp add: collect_files_selected after_reading_def)

section \<open>The records\<close>

text \<open>
  C8. The text returned is the concatenation of one record for each selected file, in
  the order the files are opened; when the names in every directory are distinct, as
  on a filesystem, no file is selected twice. Every selected file lies below
  \<open>folder_path\<close>, and when it is read successfully its record is
  \<open>[<name of folder_path>/<path relative to folder_path>]\<close>, a line feed, the content
  and two line feeds.
\<close>

theorem one_record_per_file:
  "collect_files folder_path exclude_files exclude_dirs all_files w =
     Inr (concat (map (record_text folder_path (contents w))
                     (selected folder_path exclude_files exclude_dirs all_files (listing w))),
          after_reading w
            (selected folder_path exclude_files exclude_dirs all_files (listing w))) \<and>
   (wf_listing (listing w) \<longrightarrow>
      distinct (selected folder_path exclude_files exclude_dirs all_files (listing w))) \<and>
   (\<forall>p \<in> set (selected folder_path exclude_files exclude_dirs all_files (listing w)).
      \<exists>rel. p = folder_path @ rel \<and> rel \<noteq> [] \<and>
        (\<forall>content. contents w p = Inr content \<longrightarrow>
           record_text folder_path (contents w) p =
             ''['' @ path_name folder_path @ ''/'' @ rel_str rel @ '']'' @ NL @ content @ NL @ NL))"
proof (intro conjI ballI impI)
  show "collect_files folder_path exclude_files exclude_dirs all_files w =
     Inr (concat (map (record_text folder_path (contents w))
                     (selected folder_path exclude_files exclude_dirs all_files (listing w))),
          after_reading w
            (selected folder_path exclude_files exclude_dirs all_files (listing w)))"
    by (rule collect_files_selected)
next
  assume "wf_listing (listing w)"
  then show "distinct (selected folder_path exclude_files exclude_dirs all_files (listing w))"
    by (rule distinct_selected)
next
  fix p
  assume "p \<in> set (selected folder_path exclude_files exclude_dirs all_files (listing w))"
  then obtain rel where rel: "p = folder_path @ rel" "rel \<noteq> []"
    using selected_below_root by blast
  then have "\<forall>content. contents w p = Inr content \<longrightarrow>
           record_text folder_path (contents w) p =
             ''['' @ path_name folder_path @ ''/'' @ rel_str rel @ '']'' @ NL @ content @ NL @ NL"
    by (simp add: record_text_def header_def body_def)
  with rel show "\<exists>rel. p = folder_path @ rel \<and> rel \<noteq> [] \<and>
        (\<forall>content. contents w p = Inr content \<longrightarrow>
           record_text folder_path (contents w) p =
             ''['' @ path_name folder_path @ ''/'' @ rel_str rel @ '']'' @ NL @ content @ NL @ NL)"
    by blast
qed

theorem one_record_per_file_witness:
  "wf_listing (listing example_world) \<and>
   collect_files [''tmp'', ''proj''] {} {''build''} False example_world =
     Inr (''[proj/test.py]\<newline>test.py\<newline>\<newline>'' @
          ''[proj/subdir/sub.py]\<newline><<Error reading file: [Errno 13] Permission denied>>\<newline>\<newline>'',
          after_reading example_world
            [[''tmp'', ''proj'', ''test.py''], [''tmp'', ''proj'', ''subdir'', ''sub.py'']]) \<and>
   distinct (selected [''tmp'', ''proj''] {} {''build''} False (listing example_world))"
proof -
  have sel: "selected [''tmp'', ''proj''] {} {''build''} False (listing example_world) =
     [[''tmp'', ''proj'', ''test.py''], [''tmp'', ''proj'', ''subdir'', ''sub.py'']]"
    by (simp add: selected_def example_world_def example_listing_def walk_eval qualifies_def
        endswith_def)
  have wf: "wf_listing (listing example_world)"
    by (simp add: example_world_def example_listing_def wf_listing_def)
  have rec: "record_text [''tmp'', ''proj''] (contents example_world)
               [''tmp'', ''proj'', ''test.py''] =
             ''[proj/test.py]\<newline>test.py\<newline>\<newline>''"
    "record_text [''tmp'', ''proj''] (contents example_world)
               [''tmp'', ''proj'', ''subdir'', ''sub.py''] =
             ''[proj/subdir/sub.py]\<newline><<Error reading file: [Errno 13] Permission denied>>\<newline>\<newline>''"
    by (simp_all add: record_text_def header_def body_def path_name_def example_world_def)
  note inst = one_record_per_file [of "[''tmp'', ''proj'']" "{}" "{''build''}" False example_world]
  from inst have "collect_files [''tmp'', ''proj''] {} {''build''} False example_world =
     Inr (concat (map (record_text [''tmp'', ''proj''] (contents example_world))
                     (selected [''tmp'', ''proj''] {} {''build''} False (listing example_world))),
          after_reading example_world
            (selected [''tmp'', ''proj''] {} {''build''} False (listing example_world)))"
    by blast
  then have out: "collect_files [''tmp'', ''proj''] {} {''build''} False example_world =
     Inr (''[proj/test.py]\<newline>test.py\<newline>\<newline>'' @
          ''[proj/subdir/sub.py]\<newline><<Error reading file: [Errno 13] Permission denied>>\<newline>\<newline>'',
          after_reading example_world
            [[''tmp'', ''proj'', ''test.py''], [''tmp'', ''proj'', ''subdir'', ''sub.py'']])"
    by (simp add: sel rec)
  from inst wf
  have "distinct (selected [''tmp'', ''proj''] {} {''build''} False (listing example_world))"
    by blast
  with wf out show ?thesis by blast
qed

section \<open>Trees without files\<close>

text \<open>
  C9. When no regular file is left in the tree once the excluded directories are cut
  off (\<open>no_files\<close>, characterised by \<open>no_files_iff\<close>), the call returns the empty
  string, opens nothing and logs nothing.
\<close>

theorem no_files_empty_text:
  assumes "no_files exclude_dirs (listing w)"
  shows "collect_files folder_path exclude_files exclude_dirs all_files w = Inr ([], w)"
  using assms
  by (simp add: collect_files_selected no_files_selected after_reading_def)

theorem no_files_empty_text_witness:
  "no_files {''venv''} (listing pruned_world) \<and>
   collect_files [''tmp'', ''proj''] {} {''venv''} True pruned_world = Inr ([], pruned_world)"
proof -
  have h: "no_files {''venv''} (listing pruned_world)"
    by (simp add: pruned_world_def no_files_def)
  from h no_files_empty_text [OF h, of "[''tmp'', ''proj'']" "{}" True]
  show ?thesis by simp
qed

section \<open>Files named like an excluded directory\<close>

text \<open>
  C10. \<open>exclude_dirs\<close> prunes directories only. A regular file whose own name is in
  \<open>exclude_dirs\<close>, in a directory that the walk reaches, is selected exactly when it
  passes the two tests of the loop body: \<open>all_files\<close> or a name ending in \<open>.py\<close>, and
  a path that is not in \<open>exclude_files\<close>.
\<close>

theorem exclude_dirs_spares_files:
  assumes "has_file (listing w) rel"
    and "set (butlast rel) \<inter> exclude_dirs = {}"
    and "last rel \<in> exclude_dirs"
  shows "collect_files folder_path exclude_files exclude_dirs all_files w =
           Inr (concat (map (record_text folder_path (contents w))
                           (selected folder_path exclude_files exclude_dirs all_files (listing w))),
                after_reading w
                  (selected folder_path exclude_files exclude_dirs all_files (listing w))) \<and>
         (folder_path @ rel \<in>
            set (selected folder_path exclude_files exclude_dirs all_files (listing w)) \<longleftrightarrow>
          (all_files \<or> endswith (last rel) ''.py'') \<and> folder_path @ rel \<notin> exclude_files)"
proof
  show "collect_files folder_path exclude_files exclude_dirs all_files w =
           Inr (concat (map (record_text folder_path (contents w))
                           (selected folder_path exclude_files exclude_dirs all_files (listing w))),
                after_reading w
                  (selected folder_path exclude_files exclude_dirs all_files (listing w)))"
    by (rule collect_files_selected)
  show "folder_path @ rel \<in>
            set (selected folder_path exclude_files exclude_dirs all_files (listing w)) \<longleftrightarrow>
          (all_files \<or> endswith (last rel) ''.py'') \<and> folder_path @ rel \<notin> exclude_files"
    unfolding selected_iff using assms(1,2) by auto
qed

theorem exclude_dirs_spares_files_witness:
  "has_file (listing example_world) [''subdir'', ''build''] \<and>
   set (butlast [''subdir'', ''build'']) \<inter> {''build''} = {} \<and>
   last [''subdir'', ''build''] \<in> {''build''} \<and>
   [''tmp'', ''proj'', ''subdir'', ''build''] \<in>
     set (selected [''tmp'', ''proj''] {} {''build''} True (listing example_world)) \<and>
   [''tmp'', ''proj'', ''subdir'', ''build''] \<notin>
     set (selected [''tmp'', ''proj''] {} {''build''} False (listing example_world))"
proof -
  have h1: "has_file (listing example_world) [''subdir'', ''build'']"
    by (simp add: has_file_def example_world_def example_listing_def)
  have h2: "set (butlast [''subdir'', ''build'']) \<inter> {''build''} = {}" by simp
  have h3: "last [''subdir'', ''build''] \<in> {''build''}" by simp
  from exclude_dirs_spares_files [OF h1 h2 h3, of "[''tmp'', ''proj'']" "{}" True]
    exclude_dirs_spares_files [OF h1 h2 h3, of "[''tmp'', ''proj'']" "{}" False]
  have "[''tmp'', ''proj'', ''subdir'', ''build''] \<in>
     set (selected [''tmp'', ''proj''] {} {''build''} True (listing example_world))"
    and "[''tmp'', ''proj'', ''subdir'', ''build''] \<notin>
     set (selected [''tmp'', ''proj''] {} {''build''} False (listing example_world))"
    by (simp_all add: endswith_def)
  with h1 h2 h3 show ?thesis by blast
qed

end
